theory Spec2Isabelle
  imports Main "HOL-Library.AList" "HOL-Library.Product_Lexorder"
begin

section \<open>Data model\<close>

text \<open>
  A cell is a pair of Python integers \<open>(row, column)\<close>.  Cell lists model the
  pattern lists of the source, cell sets model Python's \<open>Set[Cell]\<close>.
\<close>

type_synonym cell = "int \<times> int"

text \<open>
  The operations that can raise are the builtins \<open>min\<close> and \<open>max\<close>, which
  raise \<open>ValueError\<close> on an empty sequence, and list indexing, which raises
  \<open>IndexError\<close> out of range.
\<close>

datatype error = ValueError | IndexError

fun py_min :: "int list \<Rightarrow> error + int" where
  "py_min [] = Inl ValueError"
| "py_min (x # xs) = Inr (fold min xs x)"

fun py_max :: "int list \<Rightarrow> error + int" where
  "py_max [] = Inl ValueError"
| "py_max (x # xs) = Inr (fold max xs x)"

section \<open>Pattern parsing\<close>

text \<open>
  \<open>parse_pattern\<close>: every character equal to \<open>live_char\<close> gives the cell of
  its line number and column, lines first.
\<close>

definition parse_pattern :: "string list \<Rightarrow> char \<Rightarrow> cell list" where
  "parse_pattern lines live_char =
     concat (map (\<lambda>(r, line).
        map (\<lambda>(c, ch). (int r, int c))
          (filter (\<lambda>(c, ch). ch = live_char) (enumerate 0 line)))
       (enumerate 0 lines))"

section \<open>Normalisation\<close>

definition normalize_cells :: "cell list \<Rightarrow> error + cell list" where
  "normalize_cells cells =
     (let rows = map fst cells; cols = map snd cells in
      if rows = [] \<or> cols = [] then Inr []
      else (case py_min rows of
              Inl e \<Rightarrow> Inl e
            | Inr min_r \<Rightarrow>
               (case py_min cols of
                  Inl e \<Rightarrow> Inl e
                | Inr min_c \<Rightarrow> Inr (map (\<lambda>(r, c). (r - min_r, c - min_c)) cells))))"

section \<open>Seeding\<close>

text \<open>One iteration of the placement loop of \<open>seed_pattern\<close>.\<close>

definition place :: "int \<Rightarrow> int \<Rightarrow> int \<Rightarrow> int \<Rightarrow> cell \<Rightarrow> cell set \<Rightarrow> cell set" where
  "place rows cols offset_r offset_c = (\<lambda>(r, c) live.
     (let rr = r + offset_r; cc = c + offset_c in
      if 0 \<le> rr \<and> rr < rows \<and> 0 \<le> cc \<and> cc < cols then insert (rr, cc) live else live))"

definition seed_pattern :: "cell list \<Rightarrow> int \<Rightarrow> int \<Rightarrow> error + cell set" where
  "seed_pattern cells rows cols =
     (case normalize_cells cells of
        Inl e \<Rightarrow> Inl e
      | Inr normalized \<Rightarrow>
          if normalized = [] then Inr {}
          else (case py_max (map fst normalized) of
                  Inl e \<Rightarrow> Inl e
                | Inr max_r \<Rightarrow>
                   (case py_max (map snd normalized) of
                      Inl e \<Rightarrow> Inl e
                    | Inr max_c \<Rightarrow>
                       (let height = max_r + 1;
                            width = max_c + 1;
                            offset_r = max 0 ((rows - height) div 2);
                            offset_c = max 0 ((cols - width) div 2)
                        in Inr (fold (place rows cols offset_r offset_c) normalized {})))))"

section \<open>The transition function\<close>

text \<open>
  The dictionary \<open>counts\<close> is an association list in insertion order, as a Python
  dictionary is; \<open>dict_get\<close> is \<open>counts.get(key, default)\<close>.
\<close>

type_synonym counts = "(cell \<times> int) list"

definition dict_get :: "counts \<Rightarrow> cell \<Rightarrow> int \<Rightarrow> int" where
  "dict_get counts k d = (case map_of counts k of None \<Rightarrow> d | Some v \<Rightarrow> v)"

text \<open>The body of the two inner loops for a live cell \<open>(r, c)\<close> and one offset.\<close>

definition visit :: "int \<Rightarrow> int \<Rightarrow> int \<Rightarrow> int \<Rightarrow> int \<Rightarrow> int \<Rightarrow> counts \<Rightarrow> counts" where
  "visit rows cols r c dr dc counts =
     (if dr = 0 \<and> dc = 0 then counts
      else (let rr = r + dr; cc = c + dc in
            if 0 \<le> rr \<and> rr < rows \<and> 0 \<le> cc \<and> cc < cols
            then AList.update (rr, cc) (dict_get counts (rr, cc) 0 + 1) counts
            else counts))"

definition count_cell :: "int \<Rightarrow> int \<Rightarrow> cell \<Rightarrow> counts \<Rightarrow> counts" where
  "count_cell rows cols = (\<lambda>(r, c) counts.
     fold (\<lambda>dr. fold (\<lambda>dc. visit rows cols r c dr dc) [-1, 0, 1]) [-1, 0, 1] counts)"

definition count_neighbors :: "cell list \<Rightarrow> int \<Rightarrow> int \<Rightarrow> counts" where
  "count_neighbors enum rows cols = fold (count_cell rows cols) enum []"

definition select :: "cell set \<Rightarrow> cell \<times> int \<Rightarrow> cell set \<Rightarrow> cell set" where
  "select live = (\<lambda>(cell, neighbors) next_live.
     if neighbors = 3 \<or> (neighbors = 2 \<and> cell \<in> live) then insert cell next_live
     else next_live)"

text \<open>
  \<open>step_enum\<close> is the body of \<open>step\<close> for a given order \<open>enum\<close> in which the
  first loop enumerates the live set; \<open>step\<close> runs it on the set.
\<close>

definition step_enum :: "cell list \<Rightarrow> int \<Rightarrow> int \<Rightarrow> cell set" where
  "step_enum enum rows cols =
     fold (select (set enum)) (count_neighbors enum rows cols) {}"

definition step :: "cell set \<Rightarrow> int \<Rightarrow> int \<Rightarrow> cell set" where
  "step live rows cols = step_enum (sorted_list_of_set live) rows cols"

section \<open>The frame loop\<close>

text \<open>
  The catalogue built at the start of \<open>run\<close>: the name and the cells of each
  pattern.  The pulsar and the spaceship are parsed from their pictures.
\<close>

definition patterns :: "(string \<times> cell list) list" where
  "patterns =
     [(''Gosper Glider Gun'',
       [(0, 4), (0, 5), (1, 4), (1, 5),
        (10, 4), (10, 5), (10, 6),
        (11, 3), (11, 7),
        (12, 2), (12, 8),
        (13, 2), (13, 8),
        (14, 5),
        (15, 3), (15, 7),
        (16, 4), (16, 5), (16, 6),
        (17, 5),
        (20, 2), (20, 3), (20, 4),
        (21, 2), (21, 3), (21, 4),
        (22, 1), (22, 5),
        (24, 0), (24, 1), (24, 5), (24, 6),
        (34, 2), (34, 3), (35, 2), (35, 3)]),
      (''Pulsar'',
       parse_pattern
         [''..OOO...OOO..'',
          ''.............'',
          ''O....O.O....O'',
          ''O....O.O....O'',
          ''O....O.O....O'',
          ''..OOO...OOO..'',
          ''.............'',
          ''..OOO...OOO..'',
          ''O....O.O....O'',
          ''O....O.O....O'',
          ''O....O.O....O'',
          ''.............'',
          ''..OOO...OOO..''] (CHR ''O'')),
      (''Acorn'',
       [(0, 1), (1, 3), (2, 0), (2, 1), (2, 4), (2, 5), (2, 6)]),
      (''Lightweight Spaceship'',
       parse_pattern
         [''.O..O'',
          ''O....'',
          ''O...O'',
          ''OOOO.''] (CHR ''O''))]"

text \<open>
  The local variables of \<open>run\<close> that live across frames.  The fingerprint type
  \<open>'h\<close> is that of the values of the builtin \<open>hash\<close>, which the loop takes as the
  parameter \<open>hash_of\<close>: a function of the frozen set, so independent of any
  enumeration order, and not assumed to be injective.
\<close>

record 'h state =
  st_pattern_index :: nat
  st_rows :: int
  st_cols :: int
  st_live :: "cell set"
  st_seen_states :: "'h set"

text \<open>\<open>seed_pattern(patterns[i]["cells"], rows, cols)\<close>.\<close>

definition seed_of :: "nat \<Rightarrow> int \<Rightarrow> int \<Rightarrow> error + cell set" where
  "seed_of i rows cols =
     (if i < length patterns then seed_pattern (snd (patterns ! i)) rows cols
      else Inl IndexError)"

text \<open>The state before the first frame.\<close>

definition init :: "int \<times> int \<Rightarrow> error + 'h state" where
  "init dims =
     (case seed_of 0 (fst dims) (snd dims) of
        Inl e \<Rightarrow> Inl e
      | Inr seeded \<Rightarrow>
          Inr \<lparr>st_pattern_index = 0, st_rows = fst dims, st_cols = snd dims,
               st_live = seeded, st_seen_states = {}\<rparr>)"

text \<open>The top of a frame: a changed terminal size reseeds the current pattern.\<close>

definition resize :: "int \<times> int \<Rightarrow> 'h state \<Rightarrow> error + 'h state" where
  "resize dims st =
     (if dims \<noteq> (st_rows st, st_cols st)
      then (case seed_of (st_pattern_index st) (fst dims) (snd dims) of
              Inl e \<Rightarrow> Inl e
            | Inr seeded \<Rightarrow>
                Inr (st\<lparr>st_rows := fst dims, st_cols := snd dims,
                        st_live := seeded, st_seen_states := {}\<rparr>))
      else Inr st)"

text \<open>The live set that the frame started in \<open>st\<close> hands to \<open>draw\<close>.\<close>

definition drawn :: "int \<times> int \<Rightarrow> 'h state \<Rightarrow> error + cell set" where
  "drawn dims st = (case resize dims st of Inl e \<Rightarrow> Inl e | Inr st1 \<Rightarrow> Inr (st_live st1))"

text \<open>
  The three statements shared by the key \<open>n\<close> and by the terminal branch: advance
  the index, reseed, clear the history.
\<close>

definition next_pattern :: "'h state \<Rightarrow> error + 'h state" where
  "next_pattern st =
     (let pattern_index = (st_pattern_index st + 1) mod length patterns in
      case seed_of pattern_index (st_rows st) (st_cols st) of
        Inl e \<Rightarrow> Inl e
      | Inr seeded \<Rightarrow>
          Inr (st\<lparr>st_pattern_index := pattern_index, st_live := seeded,
                  st_seen_states := {}\<rparr>))"

text \<open>
  The cycle check of the loop: the test on the fingerprint and on emptiness, and the
  insertion into the history when the test fails.  The test itself changes nothing.
\<close>

datatype verdict = Terminal | Proceed

definition detect :: "(cell set \<Rightarrow> 'h) \<Rightarrow> 'h set \<Rightarrow> cell set \<Rightarrow> verdict \<times> 'h set" where
  "detect hash_of seen_states live =
     (let state_hash = hash_of live in
      if state_hash \<in> seen_states \<or> live = {} then (Terminal, seen_states)
      else (Proceed, insert state_hash seen_states))"

datatype 'h outcome = Exit | NextFrame "'h state"

text \<open>
  The part of a frame after the drawing, for the key read by \<open>getch\<close>
  (\<open>q\<close> = 113, \<open>Q\<close> = 81, \<open>n\<close> = 110, \<open>N\<close> = 78; no key is -1).
\<close>

definition after_draw :: "(cell set \<Rightarrow> 'h) \<Rightarrow> int \<Rightarrow> 'h state \<Rightarrow> error + 'h outcome" where
  "after_draw hash_of key st1 =
     (if key = 113 \<or> key = 81 then Inr Exit
      else (case (if key = 110 \<or> key = 78 then next_pattern st1 else Inr st1) of
              Inl e \<Rightarrow> Inl e
            | Inr st2 \<Rightarrow>
               (case detect hash_of (st_seen_states st2) (st_live st2) of
                  (Terminal, _) \<Rightarrow>
                    (case next_pattern st2 of
                       Inl e \<Rightarrow> Inl e
                     | Inr st3 \<Rightarrow> Inr (NextFrame st3))
                | (Proceed, seen) \<Rightarrow>
                    Inr (NextFrame
                      (st2\<lparr>st_seen_states := seen,
                           st_live := step (st_live st2) (st_rows st2) (st_cols st2)\<rparr>)))))"

text \<open>One iteration of the \<open>while True\<close> loop.\<close>

definition frame :: "(cell set \<Rightarrow> 'h) \<Rightarrow> int \<times> int \<Rightarrow> int \<Rightarrow> 'h state \<Rightarrow> error + 'h outcome" where
  "frame hash_of dims key st =
     (case resize dims st of
        Inl e \<Rightarrow> Inl e
      | Inr st1 \<Rightarrow> after_draw hash_of key st1)"

section \<open>Specification vocabulary\<close>

definition in_bounds :: "int \<Rightarrow> int \<Rightarrow> cell \<Rightarrow> bool" where
  "in_bounds rows cols p = (0 \<le> fst p \<and> fst p < rows \<and> 0 \<le> snd p \<and> snd p < cols)"

text \<open>The 8 Moore neighbours of a position: the 3x3 block around it minus its centre.\<close>

definition neighbors8 :: "cell \<Rightarrow> cell set" where
  "neighbors8 p = (case p of (r, c) \<Rightarrow>
     {(r - 1, c - 1), (r - 1, c), (r - 1, c + 1),
      (r, c - 1), (r, c + 1),
      (r + 1, c - 1), (r + 1, c), (r + 1, c + 1)})"

definition live_neighbors :: "cell set \<Rightarrow> cell \<Rightarrow> nat" where
  "live_neighbors live p = card (live \<inter> neighbors8 p)"

text \<open>Translation of a cell, and the bounding box of a non-empty cell list.\<close>

definition shift :: "int \<Rightarrow> int \<Rightarrow> cell \<Rightarrow> cell" where
  "shift dr dc = (\<lambda>(r, c). (r + dr, c + dc))"

definition min_row :: "cell list \<Rightarrow> int" where
  "min_row cells = Min (set (map fst cells))"

definition min_col :: "cell list \<Rightarrow> int" where
  "min_col cells = Min (set (map snd cells))"

definition bbox_height :: "cell list \<Rightarrow> int" where
  "bbox_height cells = Max (set (map fst cells)) - Min (set (map fst cells)) + 1"

definition bbox_width :: "cell list \<Rightarrow> int" where
  "bbox_width cells = Max (set (map snd cells)) - Min (set (map snd cells)) + 1"

text \<open>
  Seeding as the specification words it: normalise, centre the bounding box with
  floor division and offsets that are never negative, keep the translated cells that
  land on the board.
\<close>

definition seed_spec :: "cell list \<Rightarrow> int \<Rightarrow> int \<Rightarrow> cell set" where
  "seed_spec cells rows cols =
     (if cells = [] then {}
      else (let normalized = map (shift (- min_row cells) (- min_col cells)) cells;
                height = Max (set (map fst normalized)) + 1;
                width = Max (set (map snd normalized)) + 1;
                offset_r = max 0 ((rows - height) div 2);
                offset_c = max 0 ((cols - width) div 2)
            in Set.filter (in_bounds rows cols) (shift offset_r offset_c ` set normalized)))"

section \<open>The neighbour counts\<close>

lemma dict_get_update:
  "dict_get (AList.update k v counts) p d = (if p = k then v else dict_get counts p d)"
  by (simp add: dict_get_def update_conv')

lemma dict_get_Nil: "dict_get [] p d = d"
  by (simp add: dict_get_def)

lemma dict_get_visit:
  "dict_get (visit rows cols r c dr dc counts) p 0 =
     dict_get counts p 0 +
       (if (dr \<noteq> 0 \<or> dc \<noteq> 0) \<and> p = (r + dr, c + dc) \<and> in_bounds rows cols p then 1 else 0)"
  by (simp add: visit_def Let_def dict_get_update in_bounds_def)

lemma dict_get_visit_row:
  "dict_get (fold (\<lambda>dc. visit rows cols r c dr dc) [-1, 0, 1] counts) (a, b) 0 =
     dict_get counts (a, b) 0 +
       (if in_bounds rows cols (a, b) \<and> a = r + dr \<and> (b = c - 1 \<or> b = c \<and> dr \<noteq> 0 \<or> b = c + 1)
        then 1 else 0)"
  by (auto simp: dict_get_visit)

lemma dict_get_count_cell:
  "dict_get (count_cell rows cols (r, c) counts) (a, b) 0 =
     dict_get counts (a, b) 0 +
       (if in_bounds rows cols (a, b) \<and> (a, b) \<in> neighbors8 (r, c) then 1 else 0)"
proof -
  define row where "row = (\<lambda>dr. fold (\<lambda>dc. visit rows cols r c dr dc) [-1, 0, 1])"
  have cc: "count_cell rows cols (r, c) counts = row 1 (row 0 (row (-1) counts))"
    by (simp add: count_cell_def row_def)
  have row: "dict_get (row dr cs) (a, b) 0 =
     dict_get cs (a, b) 0 +
       (if in_bounds rows cols (a, b) \<and> a = r + dr \<and> (b = c - 1 \<or> b = c \<and> dr \<noteq> 0 \<or> b = c + 1)
        then 1 else 0)" for dr cs
    unfolding row_def by (rule dict_get_visit_row)
  show ?thesis
    unfolding cc by (auto simp: row neighbors8_def)
qed

lemma dict_get_count_fold:
  "dict_get (fold (count_cell rows cols) enum counts) p 0 =
     dict_get counts p 0 +
       (if in_bounds rows cols p then int (length (filter (\<lambda>q. p \<in> neighbors8 q) enum)) else 0)"
proof (induction enum arbitrary: counts)
  case Nil
  show ?case by simp
next
  case (Cons q enum)
  obtain r c where q: "q = (r, c)" by (cases q)
  obtain a b where p: "p = (a, b)" by (cases p)
  show ?case
    by (simp add: Cons.IH) (simp add: q p dict_get_count_cell)
qed

lemma neighbors8_diff:
  "(a, b) \<in> neighbors8 (r, c) \<longleftrightarrow>
     (a - r, b - c) \<in> {(-1, -1), (-1, 0), (-1, 1), (0, -1), (0, 1), (1, -1), (1, 0), (1, 1)}"
  unfolding neighbors8_def by (simp add: algebra_simps)

lemma offsets_neg:
  "(x :: int, y :: int) \<in> {(-1, -1), (-1, 0), (-1, 1), (0, -1), (0, 1), (1, -1), (1, 0), (1, 1)} \<longleftrightarrow>
   (- x, - y) \<in> {(-1, -1), (-1, 0), (-1, 1), (0, -1), (0, 1), (1, -1), (1, 0), (1, 1)}"
  by auto

lemma neighbors8_sym: "p \<in> neighbors8 q \<longleftrightarrow> q \<in> neighbors8 p"
proof -
  obtain a b where p: "p = (a, b)" by (cases p)
  obtain r c where q: "q = (r, c)" by (cases q)
  have "(a - r, b - c) = (- (r - a), - (c - b))" by simp
  then show ?thesis
    unfolding p q neighbors8_diff using offsets_neg[of "r - a" "c - b"] by simp
qed

lemma dict_get_count_neighbors:
  assumes "distinct enum"
  shows "dict_get (count_neighbors enum rows cols) p 0 =
     (if in_bounds rows cols p then int (live_neighbors (set enum) p) else 0)"
proof -
  have "length (filter (\<lambda>q. p \<in> neighbors8 q) enum) = card (set enum \<inter> neighbors8 p)"
    using assms neighbors8_sym[of p]
    by (simp add: distinct_length_filter Int_def conj_commute)
  then show ?thesis
    by (simp add: count_neighbors_def dict_get_count_fold live_neighbors_def dict_get_Nil)
qed

lemma distinct_visit:
  "distinct (map fst counts) \<Longrightarrow> distinct (map fst (visit rows cols r c dr dc counts))"
  by (simp add: visit_def Let_def distinct_update)

lemma distinct_count_cell:
  "distinct (map fst counts) \<Longrightarrow> distinct (map fst (count_cell rows cols q counts))"
  by (cases q) (simp add: count_cell_def distinct_visit)

lemma distinct_count_fold:
  "distinct (map fst counts) \<Longrightarrow> distinct (map fst (fold (count_cell rows cols) enum counts))"
  by (induction enum arbitrary: counts) (simp_all add: distinct_count_cell)

lemma distinct_count_neighbors: "distinct (map fst (count_neighbors enum rows cols))"
  by (simp add: count_neighbors_def distinct_count_fold)

lemma select_pair:
  "select live (k, n) acc = (if n = 3 \<or> (n = 2 \<and> k \<in> live) then insert k acc else acc)"
  by (simp add: select_def)

lemma fold_select:
  "fold (select live) counts acc =
     acc \<union> {cell. \<exists>n. (cell, n) \<in> set counts \<and> (n = 3 \<or> (n = 2 \<and> cell \<in> live))}"
proof (induction counts arbitrary: acc)
  case Nil
  show ?case by simp
next
  case (Cons kv counts)
  obtain k n where kv: "kv = (k, n)" by (cases kv)
  show ?case
    unfolding kv by (simp add: Cons.IH select_pair) blast
qed

lemma mem_step_enum:
  "p \<in> step_enum enum rows cols \<longleftrightarrow>
     (dict_get (count_neighbors enum rows cols) p 0 = 3 \<or>
      dict_get (count_neighbors enum rows cols) p 0 = 2 \<and> p \<in> set enum)"
proof -
  have "(p, n) \<in> set (count_neighbors enum rows cols) \<longleftrightarrow>
        map_of (count_neighbors enum rows cols) p = Some n" for n
    using distinct_count_neighbors[of enum rows cols] by (simp add: map_of_eq_Some_iff)
  then show ?thesis
    by (simp add: step_enum_def fold_select dict_get_def split: option.splits)
qed

lemma step_enum_iff:
  assumes "distinct enum"
  shows "p \<in> step_enum enum rows cols \<longleftrightarrow>
     in_bounds rows cols p \<and>
     (live_neighbors (set enum) p = 3 \<or> live_neighbors (set enum) p = 2 \<and> p \<in> set enum)"
  by (simp add: mem_step_enum dict_get_count_neighbors[OF assms])

lemma step_iff:
  assumes "finite live"
  shows "p \<in> step live rows cols \<longleftrightarrow>
     in_bounds rows cols p \<and>
     (live_neighbors live p = 3 \<or> live_neighbors live p = 2 \<and> p \<in> live)"
  using assms by (simp add: step_def step_enum_iff)

lemma keys_visit:
  assumes "fst ` set counts \<subseteq> {p. in_bounds rows cols p}"
  shows "fst ` set (visit rows cols r c dr dc counts) \<subseteq> {p. in_bounds rows cols p}"
proof (cases "(dr = 0 \<and> dc = 0) \<or> \<not> in_bounds rows cols (r + dr, c + dc)")
  case True
  then have "visit rows cols r c dr dc counts = counts"
    by (auto simp: visit_def Let_def in_bounds_def)
  then show ?thesis using assms by simp
next
  case False
  then have "visit rows cols r c dr dc counts =
      AList.update (r + dr, c + dc) (dict_get counts (r + dr, c + dc) 0 + 1) counts"
    by (auto simp: visit_def Let_def in_bounds_def)
  then show ?thesis using assms False by (simp add: dom_update)
qed

lemma keys_count_cell:
  "fst ` set counts \<subseteq> {p. in_bounds rows cols p} \<Longrightarrow>
   fst ` set (count_cell rows cols q counts) \<subseteq> {p. in_bounds rows cols p}"
  by (cases q) (simp add: count_cell_def keys_visit)

lemma keys_count_fold:
  "fst ` set counts \<subseteq> {p. in_bounds rows cols p} \<Longrightarrow>
   fst ` set (fold (count_cell rows cols) enum counts) \<subseteq> {p. in_bounds rows cols p}"
  by (induction enum arbitrary: counts) (simp_all add: keys_count_cell)

lemma keys_count_neighbors:
  "fst ` set (count_neighbors enum rows cols) \<subseteq> {p. in_bounds rows cols p}"
  by (simp add: count_neighbors_def keys_count_fold)

lemma step_enum_set_eq:
  assumes "distinct xs" and "distinct ys" and "set xs = set ys"
  shows "step_enum xs rows cols = step_enum ys rows cols"
proof (rule set_eqI)
  fix p
  show "p \<in> step_enum xs rows cols \<longleftrightarrow> p \<in> step_enum ys rows cols"
    by (simp add: step_enum_iff assms(1,2)) (simp add: assms(3))
qed

section \<open>The rule of the engine\<close>

text \<open>
  C1.  For a live set whose cells are all on the board, the next generation holds a
  position exactly when the position is on the board and has three live cells among
  its 8 Moore neighbours, or two and is live itself.  No position off the board is
  ever entered into the dictionary of counts, and none is produced.
\<close>

theorem step_conway_rule:
  assumes "finite live" and "\<forall>q \<in> live. in_bounds rows cols q"
  shows "(p \<in> step live rows cols \<longleftrightarrow>
            in_bounds rows cols p \<and>
            (live_neighbors live p = 3 \<or> live_neighbors live p = 2 \<and> p \<in> live)) \<and>
         fst ` set (count_neighbors (sorted_list_of_set live) rows cols)
            \<subseteq> {p. in_bounds rows cols p} \<and>
         step live rows cols \<subseteq> {p. in_bounds rows cols p}"
proof -
  have "step live rows cols \<subseteq> {p. in_bounds rows cols p}"
    using assms(1) by (auto simp: step_iff)
  then show ?thesis
    using assms(1) keys_count_neighbors by (simp add: step_iff)
qed

theorem step_conway_rule_witness:
  "(4, 5) \<in> step {(5, 4), (5, 5), (5, 6)} 10 10 \<and>
   live_neighbors {(5, 4), (5, 5), (5, 6)} (4, 5) = 3 \<and>
   (4, 4) \<notin> step {(5, 4), (5, 5), (5, 6)} 10 10 \<and>
   live_neighbors {(5, 4), (5, 5), (5, 6)} (4, 4) = 2"
proof -
  have fin: "finite {(5, 4), (5, 5), (5, 6 :: int) :: cell}" by simp
  have inb: "\<forall>q \<in> {(5, 4), (5, 5), (5, 6)}. in_bounds 10 10 q"
    by (simp add: in_bounds_def)
  have n3: "live_neighbors {(5, 4), (5, 5), (5, 6)} (4, 5) = 3" by code_simp
  have n2: "live_neighbors {(5, 4), (5, 5), (5, 6)} (4, 4) = 2" by code_simp
  show ?thesis
    using step_conway_rule[OF fin inb, of "(4, 5)"] step_conway_rule[OF fin inb, of "(4, 4)"]
      n3 n2
    by (simp add: in_bounds_def)
qed

text \<open>
  C6.  The horizontal blinker on a 10x10 board becomes the vertical one after one
  step and is back after two.
\<close>

theorem blinker_oscillates:
  "step {(5, 4), (5, 5), (5, 6)} 10 10 = {(4, 5), (5, 5), (6, 5)} \<and>
   step (step {(5, 4), (5, 5), (5, 6)} 10 10) 10 10 = {(5, 4), (5, 5), (5, 6)}"
  by code_simp

theorem blinker_oscillates_witness:
  "(6, 5) \<in> step {(5, 4), (5, 5), (5, 6)} 10 10 \<and>
   (5, 6) \<in> step (step {(5, 4), (5, 5), (5, 6)} 10 10) 10 10"
proof -
  have "(6, 5) \<in> step {(5, 4), (5, 5), (5, 6)} 10 10"
    by (subst blinker_oscillates[THEN conjunct1]) simp
  moreover have "(5, 6) \<in> step (step {(5, 4), (5, 5), (5, 6)} 10 10) 10 10"
    by (subst blinker_oscillates[THEN conjunct2]) simp
  ultimately show ?thesis by simp
qed

text \<open>
  C7.  The result of a step is a function of the live set, the rows and the columns
  alone: any two orders in which the first loop may enumerate the same set give the
  same next generation, which is the one \<open>step\<close> returns for the set.
\<close>

theorem step_order_independent:
  assumes "distinct xs" and "distinct ys" and "set xs = set ys"
  shows "step_enum xs rows cols = step_enum ys rows cols \<and>
         step (set xs) rows cols = step_enum xs rows cols"
proof -
  have "distinct (sorted_list_of_set (set xs))" "set (sorted_list_of_set (set xs)) = set xs"
    by simp_all
  then have "step (set xs) rows cols = step_enum xs rows cols"
    unfolding step_def using assms(1) by (intro step_enum_set_eq)
  then show ?thesis
    using step_enum_set_eq[OF assms] by simp
qed

theorem step_order_independent_witness:
  "step_enum [(5, 4), (5, 5), (5, 6)] 10 10 = step_enum [(5, 6), (5, 4), (5, 5)] 10 10 \<and>
   step {(5, 4), (5, 5), (5, 6)} 10 10 = step_enum [(5, 4), (5, 5), (5, 6)] 10 10"
proof -
  have d1: "distinct [(5, 4), (5, 5), (5, 6 :: int) :: cell]" by simp
  have d2: "distinct [(5, 6), (5, 4), (5, 5 :: int) :: cell]" by simp
  have eq: "set [(5, 4), (5, 5), (5, 6 :: int) :: cell] = set [(5, 6), (5, 4), (5, 5)]" by auto
  show ?thesis
    using step_order_independent[OF d1 d2 eq, of 10 10] by simp
qed

text \<open>
  C10.  Whatever the live set, with cells off the board or not, every cell of the
  next generation is on the board, so a live cell off the board never survives;
  such a cell is still counted as a neighbour of the positions on the board next to
  it.  With no rows or no columns the next generation is empty.
\<close>

theorem step_within_board:
  assumes "finite live"
  shows "(\<forall>p \<in> step live rows cols. in_bounds rows cols p) \<and>
         (\<forall>q \<in> live. \<not> in_bounds rows cols q \<longrightarrow> q \<notin> step live rows cols) \<and>
         (p \<in> step live rows cols \<longleftrightarrow>
            in_bounds rows cols p \<and>
            (card (live \<inter> neighbors8 p) = 3 \<or> card (live \<inter> neighbors8 p) = 2 \<and> p \<in> live)) \<and>
         (rows \<le> 0 \<or> cols \<le> 0 \<longrightarrow> step live rows cols = {})"
proof -
  have mem: "q \<in> step live rows cols \<longleftrightarrow>
       in_bounds rows cols q \<and>
       (card (live \<inter> neighbors8 q) = 3 \<or> card (live \<inter> neighbors8 q) = 2 \<and> q \<in> live)" for q
    using assms by (simp add: step_iff live_neighbors_def)
  have empty: "step live rows cols = {}" if "rows \<le> 0 \<or> cols \<le> 0"
  proof -
    have "\<not> in_bounds rows cols q" for q
      using that by (auto simp: in_bounds_def)
    then show ?thesis using mem by blast
  qed
  show ?thesis
    using mem empty by blast
qed

theorem step_within_board_witness:
  "step {(-1, 1), (0, 0), (0, 2)} 3 3 = {(0, 1)} \<and>
   card ({(-1, 1), (0, 0), (0, 2)} \<inter> neighbors8 (0, 1)) = 3 \<and>
   (-1, 1) \<notin> step {(-1, 1), (0, 0), (0, 2)} 3 3 \<and>
   step {(0, 0), (0, 2)} 3 3 = {} \<and>
   step {(-1, 1), (0, 0), (0, 2)} 0 3 = {}"
proof -
  have fin: "finite {(-1, 1), (0, 0), (0, 2 :: int) :: cell}" by simp
  have s: "step {(-1, 1), (0, 0), (0, 2)} 3 3 = {(0, 1)}" by code_simp
  have c: "card ({(-1, 1), (0, 0), (0, 2)} \<inter> neighbors8 (0, 1)) = 3" by code_simp
  have s2: "step {(0, 0), (0, 2)} 3 3 = {}" by code_simp
  show ?thesis
    using step_within_board[OF fin, of 3 3 "(0, 1)"] step_within_board[OF fin, of 0 3 "(0, 1)"]
      s c s2
    by simp
qed

section \<open>Normalisation and seeding\<close>

lemma py_min_Min: "xs \<noteq> [] \<Longrightarrow> py_min xs = Inr (Min (set xs))"
proof (cases xs)
  case (Cons a list)
  then show ?thesis using Min.set_eq_fold[of a list] by simp
qed simp

lemma py_max_Max: "xs \<noteq> [] \<Longrightarrow> py_max xs = Inr (Max (set xs))"
proof (cases xs)
  case (Cons a list)
  then show ?thesis using Max.set_eq_fold[of a list] by simp
qed simp

lemma normalize_cells_Nil: "normalize_cells [] = Inr []"
  by (simp add: normalize_cells_def)

lemma normalize_cells_eq:
  assumes "cells \<noteq> []"
  shows "normalize_cells cells = Inr (map (shift (- min_row cells) (- min_col cells)) cells)"
proof -
  have "(\<lambda>(r, c). (r - min_row cells, c - min_col cells)) = shift (- min_row cells) (- min_col cells)"
    by (simp add: shift_def fun_eq_iff)
  then show ?thesis
    using assms by (simp add: normalize_cells_def py_min_Min min_row_def min_col_def)
qed

lemma Min_image_add:
  fixes f :: "'a \<Rightarrow> int"
  assumes "finite A" and "A \<noteq> {}"
  shows "(MIN x\<in>A. f x + d) = (MIN x\<in>A. f x) + d"
proof -
  have "mono (\<lambda>x :: int. x + d)" by (simp add: mono_def)
  then have "Min (f ` A) + d = Min ((\<lambda>x. x + d) ` f ` A)"
    using assms by (intro mono_Min_commute) simp_all
  then show ?thesis by (simp add: image_image)
qed

lemma Max_image_add:
  fixes f :: "'a \<Rightarrow> int"
  assumes "finite A" and "A \<noteq> {}"
  shows "(MAX x\<in>A. f x + d) = (MAX x\<in>A. f x) + d"
proof -
  have "mono (\<lambda>x :: int. x + d)" by (simp add: mono_def)
  then have "Max (f ` A) + d = Max ((\<lambda>x. x + d) ` f ` A)"
    using assms by (intro mono_Max_commute) simp_all
  then show ?thesis by (simp add: image_image)
qed

lemma Min_image_diff:
  fixes f :: "'a \<Rightarrow> int"
  assumes "finite A" and "A \<noteq> {}"
  shows "(MIN x\<in>A. f x - d) = (MIN x\<in>A. f x) - d"
  using Min_image_add[OF assms, of f "- d"] by simp

lemma Max_image_diff:
  fixes f :: "'a \<Rightarrow> int"
  assumes "finite A" and "A \<noteq> {}"
  shows "(MAX x\<in>A. f x - d) = (MAX x\<in>A. f x) - d"
  using Max_image_add[OF assms, of f "- d"] by simp

lemma fst_shift: "fst (shift dr dc p) = fst p + dr"
  by (cases p) (simp add: shift_def)

lemma snd_shift: "snd (shift dr dc p) = snd p + dc"
  by (cases p) (simp add: shift_def)

lemma min_row_shift: "cells \<noteq> [] \<Longrightarrow> min_row (map (shift dr dc) cells) = min_row cells + dr"
  by (simp add: min_row_def image_image fst_shift Min_image_add)

lemma min_col_shift: "cells \<noteq> [] \<Longrightarrow> min_col (map (shift dr dc) cells) = min_col cells + dc"
  by (simp add: min_col_def image_image snd_shift Min_image_add)

lemma bbox_height_shift:
  "cells \<noteq> [] \<Longrightarrow> bbox_height (map (shift dr dc) cells) = bbox_height cells"
  by (simp add: bbox_height_def image_image fst_shift Min_image_add Max_image_add)

lemma bbox_width_shift:
  "cells \<noteq> [] \<Longrightarrow> bbox_width (map (shift dr dc) cells) = bbox_width cells"
  by (simp add: bbox_width_def image_image snd_shift Min_image_add Max_image_add)

lemma shift_zero: "map (shift 0 0) cells = cells"
  by (simp add: shift_def)

lemma shift_shift: "shift a b (shift c d p) = shift (a + c) (b + d) p"
  by (cases p) (simp add: shift_def)

lemma fold_place:
  "fold (place rows cols offset_r offset_c) normalized acc =
     acc \<union> Set.filter (in_bounds rows cols) (shift offset_r offset_c ` set normalized)"
proof (induction normalized arbitrary: acc)
  case Nil
  show ?case by simp
next
  case (Cons p normalized)
  obtain r c where p: "p = (r, c)" by (cases p)
  have "place rows cols offset_r offset_c (r, c) acc =
      (if in_bounds rows cols (shift offset_r offset_c (r, c))
       then insert (shift offset_r offset_c (r, c)) acc else acc)"
    by (simp add: place_def Let_def in_bounds_def shift_def)
  then show ?case
    unfolding p by (simp add: Cons.IH) auto
qed

lemma seed_pattern_Nil: "seed_pattern [] rows cols = Inr {}"
  by (simp add: seed_pattern_def normalize_cells_Nil)

lemma seed_pattern_eq_spec: "seed_pattern cells rows cols = Inr (seed_spec cells rows cols)"
proof (cases "cells = []")
  case True
  then show ?thesis by (simp add: seed_pattern_Nil seed_spec_def)
next
  case False
  define normalized where "normalized = map (shift (- min_row cells) (- min_col cells)) cells"
  have ne: "normalized \<noteq> []" using False by (simp add: normalized_def)
  have "seed_pattern cells rows cols =
      Inr (fold (place rows cols (max 0 ((rows - (Max (set (map fst normalized)) + 1)) div 2))
                   (max 0 ((cols - (Max (set (map snd normalized)) + 1)) div 2))) normalized {})"
    unfolding seed_pattern_def normalize_cells_eq[OF False] normalized_def[symmetric]
    using ne by (simp add: py_max_Max Let_def)
  moreover have "seed_spec cells rows cols =
      Set.filter (in_bounds rows cols)
        (shift (max 0 ((rows - (Max (set (map fst normalized)) + 1)) div 2))
               (max 0 ((cols - (Max (set (map snd normalized)) + 1)) div 2)) ` set normalized)"
    unfolding seed_spec_def normalized_def[symmetric] Let_def using False by (simp only: if_False)
  ultimately show ?thesis
    by (simp only: fold_place Un_empty_left)
qed

lemma seed_spec_in_bounds: "p \<in> seed_spec cells rows cols \<Longrightarrow> in_bounds rows cols p"
  by (simp add: seed_spec_def Let_def split: if_splits)

lemma inj_shift: "inj (shift dr dc)"
  by (auto simp: inj_def shift_def)

lemma centre_bounds:
  fixes x lo hi n :: int
  assumes "lo \<le> x" and "x \<le> hi" and "hi - lo + 1 \<le> n"
  shows "0 \<le> x + - lo + max 0 ((n - (hi + - lo + 1)) div 2)"
    and "x + - lo + max 0 ((n - (hi + - lo + 1)) div 2) < n"
  using assms by auto

lemma seed_spec_fits:
  assumes ne: "cells \<noteq> []"
    and h: "bbox_height cells \<le> rows" and w: "bbox_width cells \<le> cols"
  shows "card (seed_spec cells rows cols) = card (set cells)"
proof -
  define normalized where "normalized = map (shift (- min_row cells) (- min_col cells)) cells"
  define offset_r where "offset_r = max 0 ((rows - (Max (set (map fst normalized)) + 1)) div 2)"
  define offset_c where "offset_c = max 0 ((cols - (Max (set (map snd normalized)) + 1)) div 2)"
  have mr: "Max (set (map fst normalized)) = Max (set (map fst cells)) + - min_row cells"
    using ne by (simp add: normalized_def image_image fst_shift Max_image_diff)
  have mc: "Max (set (map snd normalized)) = Max (set (map snd cells)) + - min_col cells"
    using ne by (simp add: normalized_def image_image snd_shift Max_image_diff)
  have inb: "in_bounds rows cols (shift offset_r offset_c (shift (- min_row cells) (- min_col cells) p))"
    if "p \<in> set cells" for p
  proof -
    have r: "min_row cells \<le> fst p" "fst p \<le> Max (set (map fst cells))"
      using that by (simp_all add: min_row_def)
    have c: "min_col cells \<le> snd p" "snd p \<le> Max (set (map snd cells))"
      using that by (simp_all add: min_col_def)
    have hh: "Max (set (map fst cells)) - min_row cells + 1 \<le> rows"
      using h by (simp add: bbox_height_def min_row_def)
    have ww: "Max (set (map snd cells)) - min_col cells + 1 \<le> cols"
      using w by (simp add: bbox_width_def min_col_def)
    show ?thesis
      unfolding in_bounds_def fst_shift snd_shift offset_r_def offset_c_def mr mc
      using centre_bounds[OF r hh] centre_bounds[OF c ww] by simp
  qed
  have "seed_spec cells rows cols =
      Set.filter (in_bounds rows cols) (shift offset_r offset_c ` set normalized)"
    unfolding seed_spec_def normalized_def[symmetric] Let_def offset_r_def offset_c_def
    using ne by (simp only: if_False)
  also have "\<dots> = shift offset_r offset_c ` set normalized"
    using inb by (auto simp: normalized_def)
  also have "card \<dots> = card (set normalized)"
    by (rule card_image) (rule inj_on_subset[OF inj_shift subset_UNIV])
  also have "set normalized = shift (- min_row cells) (- min_col cells) ` set cells"
    by (simp add: normalized_def)
  also have "card \<dots> = card (set cells)"
    by (rule card_image) (rule inj_on_subset[OF inj_shift subset_UNIV])
  finally show ?thesis .
qed

lemma seed_spec_no_board:
  assumes "rows \<le> 0 \<or> cols \<le> 0"
  shows "seed_spec cells rows cols = {}"
proof -
  have "\<not> in_bounds rows cols p" for p
    using assms by (auto simp: in_bounds_def)
  then show ?thesis
    by (auto simp: seed_spec_def Let_def)
qed

lemma height_normalized:
  assumes "cells \<noteq> []"
  shows "Max (set (map fst (map (shift (- min_row cells) (- min_col cells)) cells))) + 1 =
         bbox_height cells"
proof -
  let ?n = "map (shift (- min_row cells) (- min_col cells)) cells"
  have "min_row ?n = 0" using assms by (simp add: min_row_shift)
  then have "Max (set (map fst ?n)) + 1 = bbox_height ?n"
    by (simp add: bbox_height_def min_row_def)
  then show ?thesis using bbox_height_shift[OF assms, of "- min_row cells" "- min_col cells"] by (rule trans)
qed

lemma width_normalized:
  assumes "cells \<noteq> []"
  shows "Max (set (map snd (map (shift (- min_row cells) (- min_col cells)) cells))) + 1 =
         bbox_width cells"
proof -
  let ?n = "map (shift (- min_row cells) (- min_col cells)) cells"
  have "min_col ?n = 0" using assms by (simp add: min_col_shift)
  then have "Max (set (map snd ?n)) + 1 = bbox_width ?n"
    by (simp add: bbox_width_def min_col_def)
  then show ?thesis using bbox_width_shift[OF assms, of "- min_row cells" "- min_col cells"] by (rule trans)
qed

lemma seed_spec_closed_form:
  assumes "cells \<noteq> []"
  shows "seed_spec cells rows cols =
     Set.filter (in_bounds rows cols)
       (shift (max 0 ((rows - bbox_height cells) div 2) - min_row cells)
              (max 0 ((cols - bbox_width cells) div 2) - min_col cells) ` set cells)"
proof -
  have "shift a b ` set (map (shift c d) cells) = shift (a + c) (b + d) ` set cells" for a b c d
    by (simp add: image_image shift_shift)
  then show ?thesis
    unfolding seed_spec_def Let_def height_normalized[OF assms] width_normalized[OF assms]
    using assms by simp
qed

lemma normalize_cells_fixed:
  assumes "cells \<noteq> []" and "min_row cells = 0" and "min_col cells = 0"
  shows "normalize_cells cells = Inr cells"
  using assms by (simp add: normalize_cells_eq shift_zero)

lemma finite_step_enum: "finite (step_enum enum rows cols)"
proof -
  have "step_enum enum rows cols \<subseteq> fst ` set (count_neighbors enum rows cols)"
    by (force simp: step_enum_def fold_select)
  then show ?thesis by (rule finite_subset) simp
qed

lemma finite_seed_spec: "finite (seed_spec cells rows cols)"
  by (simp add: seed_spec_def Let_def)

lemma length_patterns: "length patterns = 4"
  by (simp add: patterns_def)

lemma seed_of_eq:
  "i < length patterns \<Longrightarrow> seed_of i rows cols = Inr (seed_spec (snd (patterns ! i)) rows cols)"
  by (simp add: seed_of_def seed_pattern_eq_spec)

lemma resize_total:
  assumes "st_pattern_index st < length patterns"
  shows "\<exists>st1. resize dims st = Inr st1 \<and> st_pattern_index st1 = st_pattern_index st"
  using assms by (simp add: resize_def seed_of_eq)

lemma next_pattern_total: "\<exists>st'. next_pattern st = Inr st'"
proof -
  have "(st_pattern_index st + 1) mod length patterns < length patterns"
    by (simp add: length_patterns)
  then show ?thesis
    by (simp add: next_pattern_def Let_def seed_of_eq)
qed

lemma after_draw_total: "\<exists>out. after_draw hash_of key st1 = Inr out"
proof -
  obtain st2 where st2: "(if key = 110 \<or> key = 78 then next_pattern st1 else Inr st1) = Inr st2"
    using next_pattern_total[of st1] by (cases "key = 110 \<or> key = 78") auto
  obtain st3 where st3: "next_pattern st2 = Inr st3"
    using next_pattern_total[of st2] by auto
  show ?thesis
    unfolding after_draw_def st2
    by (cases "detect hash_of (st_seen_states st2) (st_live st2)"; cases "fst (detect hash_of (st_seen_states st2) (st_live st2))")
       (simp_all add: st3)
qed

lemma frame_total:
  assumes "st_pattern_index st < length patterns"
  shows "\<exists>out. frame hash_of dims key st = Inr out"
proof -
  obtain st1 where "resize dims st = Inr st1"
    using resize_total[OF assms] by blast
  then show ?thesis
    using after_draw_total[of hash_of key st1] by (simp add: frame_def)
qed

text \<open>
  C5.  For a non-empty list \<open>normalize_cells\<close> returns the list with every cell
  shifted by \<open>(-min_row, -min_col)\<close>, whatever the signs of the coordinates, and the
  least row and the least column of the result are 0; for the empty list it returns
  the empty list.
\<close>

theorem normalize_cells_min_zero:
  "normalize_cells [] = Inr [] \<and>
   (cells \<noteq> [] \<longrightarrow>
      (\<exists>ys. normalize_cells cells = Inr ys \<and>
            ys = map (shift (- min_row cells) (- min_col cells)) cells \<and>
            min_row ys = 0 \<and> min_col ys = 0))"
  by (simp add: normalize_cells_Nil normalize_cells_eq min_row_shift min_col_shift)

theorem normalize_cells_min_zero_witness:
  "normalize_cells [(-3, 1), (1, -3)] = Inr [(0, 4), (4, 0)] \<and>
   min_row [(0, 4), (4, 0)] = 0 \<and> min_col [(0, 4), (4, 0)] = 0"
proof -
  have ne: "[(-3, 1), (1, -3 :: int) :: cell] \<noteq> []" by simp
  have m: "min_row [(-3, 1), (1, -3)] = -3" "min_col [(-3, 1), (1, -3)] = -3"
    by (simp_all add: min_row_def min_col_def)
  show ?thesis
    using normalize_cells_min_zero[of "[(-3, 1), (1, -3)]"] ne
    by (simp add: m shift_def)
qed

text \<open>
  C9.  Normalising is idempotent: the result of \<open>normalize_cells\<close> is normalised to
  itself, and so is every non-empty list whose least row and column are 0.  The
  result has the length of the input, and the differences between the coordinates of
  any two cells of the input are those of the cells at the same places of the result.
\<close>

theorem normalize_cells_idempotent:
  "(\<exists>ys. normalize_cells cells = Inr ys \<and> normalize_cells ys = Inr ys \<and>
         length ys = length cells \<and>
         (\<forall>i j. i < length cells \<and> j < length cells \<longrightarrow>
            fst (ys ! i) - fst (ys ! j) = fst (cells ! i) - fst (cells ! j) \<and>
            snd (ys ! i) - snd (ys ! j) = snd (cells ! i) - snd (cells ! j))) \<and>
   (cells \<noteq> [] \<and> min_row cells = 0 \<and> min_col cells = 0 \<longrightarrow>
      normalize_cells cells = Inr cells)"
proof (cases "cells = []")
  case True
  then show ?thesis by (simp add: normalize_cells_Nil)
next
  case False
  define ys where "ys = map (shift (- min_row cells) (- min_col cells)) cells"
  have ne: "ys \<noteq> []" using False by (simp add: ys_def)
  have 1: "normalize_cells cells = Inr ys"
    using False by (simp add: normalize_cells_eq ys_def)
  have "min_row ys = 0" "min_col ys = 0"
    using False by (simp_all add: ys_def min_row_shift min_col_shift)
  then have 2: "normalize_cells ys = Inr ys"
    using ne by (simp add: normalize_cells_fixed)
  have 3: "length ys = length cells" by (simp add: ys_def)
  have 4: "fst (ys ! i) - fst (ys ! j) = fst (cells ! i) - fst (cells ! j) \<and>
           snd (ys ! i) - snd (ys ! j) = snd (cells ! i) - snd (cells ! j)"
    if "i < length cells" "j < length cells" for i j
    using that by (simp add: ys_def fst_shift snd_shift)
  show ?thesis
    using 1 2 3 4 normalize_cells_fixed[of cells] by simp
qed

theorem normalize_cells_idempotent_witness:
  "normalize_cells [(-3, 1), (1, -3)] = Inr [(0, 4), (4, 0)] \<and>
   normalize_cells [(0, 4), (4, 0)] = Inr [(0, 4), (4, 0)]"
proof -
  have n: "normalize_cells [(-3, 1), (1, -3)] = Inr [(0, 4), (4, 0)]"
    by (simp add: normalize_cells_def)
  show ?thesis
    using normalize_cells_idempotent[of "[(-3, 1), (1, -3)]"] n by auto
qed

text \<open>
  C8.  \<open>normalize_cells\<close> and \<open>seed_pattern\<close> return a result for every cell list
  and all dimensions: the guards on emptiness keep \<open>min\<close> and \<open>max\<close> away from the
  empty sequence.  The empty pattern is seeded to the empty live set.  \<open>step\<close> has
  no raising operation and returns a finite set.  A frame of the loop, which seeds,
  fingerprints and steps, returns a result from every state whose pattern index is
  in range.
\<close>

theorem engine_total:
  "(\<exists>ys. normalize_cells cells = Inr ys) \<and>
   (\<exists>s. seed_pattern cells rows cols = Inr s \<and> finite s) \<and>
   seed_pattern [] rows cols = Inr {} \<and>
   finite (step live rows cols) \<and>
   (st_pattern_index st < length patterns \<longrightarrow>
      (\<exists>out. frame hash_of dims key st = Inr out))"
proof -
  have "\<exists>ys. normalize_cells cells = Inr ys"
    by (cases "cells = []") (simp_all add: normalize_cells_Nil normalize_cells_eq)
  moreover have "\<exists>s. seed_pattern cells rows cols = Inr s \<and> finite s"
    by (simp add: seed_pattern_eq_spec finite_seed_spec)
  moreover have "finite (step live rows cols)"
    by (simp add: step_def finite_step_enum)
  ultimately show ?thesis
    using frame_total[of st hash_of dims key] by (simp add: seed_pattern_Nil)
qed

theorem engine_total_witness:
  "normalize_cells [(-3, 1), (1, -3)] = Inr [(0, 4), (4, 0)] \<and>
   seed_pattern [(-3, 1), (1, -3)] 5 5 = Inr {(0, 4), (4, 0)} \<and>
   seed_pattern [] 24 80 = Inr {} \<and>
   finite (step {(2, 1), (2, 2), (2, 3)} 5 5) \<and>
   (\<exists>out. frame (\<lambda>s. s) (24, 80) 110
      \<lparr>st_pattern_index = 1, st_rows = 24, st_cols = 80, st_live = {(1, 1)},
        st_seen_states = {}\<rparr> = Inr out)"
proof -
  have n: "normalize_cells [(-3, 1), (1, -3)] = Inr [(0, 4), (4, 0)]"
    by (simp add: normalize_cells_def)
  have s: "seed_pattern [(-3, 1), (1, -3)] 5 5 = Inr {(0, 4), (4, 0)}"
    by code_simp
  have i: "st_pattern_index \<lparr>st_pattern_index = 1, st_rows = 24, st_cols = 80,
      st_live = {(1, 1)}, st_seen_states = ({} :: cell set set)\<rparr> < length patterns"
    by (simp add: length_patterns)
  show ?thesis
    using engine_total[of "[(-3, 1), (1, -3)]" 5 5 "{(2, 1), (2, 2), (2, 3)}"
        "\<lparr>st_pattern_index = 1, st_rows = 24, st_cols = 80, st_live = {(1, 1)},
          st_seen_states = ({} :: cell set set)\<rparr>" "\<lambda>s. s" "(24, 80)" 110] n s i
    by (simp add: seed_pattern_Nil)
qed

text \<open>
  C4.  \<open>seed_pattern\<close> computes what the specification describes: the normalised
  cells, translated by the offsets \<open>max(0, (rows - height) // 2)\<close> and
  \<open>max(0, (cols - width) // 2)\<close> of the normalised bounding box, restricted to the
  board; in terms of the given cells, each is moved by the offset minus the least
  row or column.  Every seeded cell is on the board; a pattern whose bounding box
  fits the board keeps the number of its distinct cells; with no rows or no columns
  nothing is seeded.
\<close>

theorem seed_pattern_centres:
  "seed_pattern cells rows cols = Inr (seed_spec cells rows cols) \<and>
   (cells \<noteq> [] \<longrightarrow>
      seed_spec cells rows cols =
        Set.filter (in_bounds rows cols)
          (shift (max 0 ((rows - bbox_height cells) div 2) - min_row cells)
                 (max 0 ((cols - bbox_width cells) div 2) - min_col cells) ` set cells)) \<and>
   (\<forall>p \<in> seed_spec cells rows cols. in_bounds rows cols p) \<and>
   (cells = [] \<or> bbox_height cells \<le> rows \<and> bbox_width cells \<le> cols \<longrightarrow>
      card (seed_spec cells rows cols) = card (set cells)) \<and>
   (rows = 0 \<or> cols = 0 \<longrightarrow> seed_pattern cells rows cols = Inr {})"
proof -
  have none: "seed_spec cells rows cols = {}" if "rows = 0 \<or> cols = 0"
    using that by (intro seed_spec_no_board) auto
  have fit: "card (seed_spec cells rows cols) = card (set cells)"
    if "cells = [] \<or> bbox_height cells \<le> rows \<and> bbox_width cells \<le> cols"
  proof (cases "cells = []")
    case True
    then show ?thesis by (simp add: seed_spec_def)
  next
    case False
    then show ?thesis using that by (simp add: seed_spec_fits)
  qed
  show ?thesis
  proof (intro conjI impI ballI)
    show "seed_pattern cells rows cols = Inr (seed_spec cells rows cols)"
      by (rule seed_pattern_eq_spec)
    show "seed_spec cells rows cols =
        Set.filter (in_bounds rows cols)
          (shift (max 0 ((rows - bbox_height cells) div 2) - min_row cells)
                 (max 0 ((cols - bbox_width cells) div 2) - min_col cells) ` set cells)"
      if "cells \<noteq> []"
      using that by (rule seed_spec_closed_form)
    show "in_bounds rows cols p" if "p \<in> seed_spec cells rows cols" for p
      using that by (rule seed_spec_in_bounds)
    show "card (seed_spec cells rows cols) = card (set cells)"
      if "cells = [] \<or> bbox_height cells \<le> rows \<and> bbox_width cells \<le> cols"
      using that by (rule fit)
    show "seed_pattern cells rows cols = Inr {}" if "rows = 0 \<or> cols = 0"
      using none[OF that] by (simp add: seed_pattern_eq_spec)
  qed
qed

theorem seed_pattern_centres_witness:
  "seed_pattern [(0, 1), (1, 3), (2, 0), (2, 1), (2, 4), (2, 5), (2, 6)] 24 80 =
     Inr {(10, 37), (11, 39), (12, 36), (12, 37), (12, 40), (12, 41), (12, 42)} \<and>
   card (seed_spec [(0, 1), (1, 3), (2, 0), (2, 1), (2, 4), (2, 5), (2, 6)] 24 80) = 7 \<and>
   seed_pattern [(0, 1), (1, 3), (2, 0), (2, 1), (2, 4), (2, 5), (2, 6)] 0 80 = Inr {}"
proof -
  let ?acorn = "[(0, 1), (1, 3), (2, 0), (2, 1), (2, 4), (2, 5), (2, 6 :: int)] :: cell list"
  have sp: "seed_spec ?acorn 24 80 =
      {(10, 37), (11, 39), (12, 36), (12, 37), (12, 40), (12, 41), (12, 42)}"
    by code_simp
  have fits: "?acorn = [] \<or> bbox_height ?acorn \<le> 24 \<and> bbox_width ?acorn \<le> 80"
    by (simp add: bbox_height_def bbox_width_def)
  have c: "card (set ?acorn) = 7" by simp
  have a: "seed_pattern ?acorn 24 80 = Inr (seed_spec ?acorn 24 80) \<and>
      card (seed_spec ?acorn 24 80) = card (set ?acorn)"
    using seed_pattern_centres[of ?acorn 24 80] fits by blast
  have b: "seed_pattern ?acorn 0 80 = Inr {}"
    using seed_pattern_centres[of ?acorn 0 80] by blast
  show ?thesis
    using a b c by (simp add: sp)
qed

section \<open>The cycle check and the frame loop\<close>

lemma next_pattern_fields:
  "next_pattern st = Inr st' \<Longrightarrow>
     st_pattern_index st' = (st_pattern_index st + 1) mod length patterns \<and>
     st_rows st' = st_rows st \<and> st_cols st' = st_cols st \<and>
     seed_of (st_pattern_index st') (st_rows st) (st_cols st) = Inr (st_live st') \<and>
     st_seen_states st' = {}"
  by (auto simp: next_pattern_def Let_def split: sum.splits)

lemma after_draw_no_key:
  assumes "key \<notin> {113, 81, 110, 78}"
  shows "after_draw hash_of key st =
     (case detect hash_of (st_seen_states st) (st_live st) of
        (Terminal, _) \<Rightarrow>
          (case next_pattern st of Inl e \<Rightarrow> Inl e | Inr st3 \<Rightarrow> Inr (NextFrame st3))
      | (Proceed, seen) \<Rightarrow>
          Inr (NextFrame (st\<lparr>st_seen_states := seen,
                 st_live := step (st_live st) (st_rows st) (st_cols st)\<rparr>)))"
  using assms by (simp add: after_draw_def)

lemma resize_same: "resize (st_rows st, st_cols st) st = Inr st"
  by (simp add: resize_def)

text \<open>
  C3.  The cycle check signals terminal, and adds nothing to the history, when the
  fingerprint of the live set is in the history or the live set is empty; otherwise it
  signals to go on and adds the fingerprint.  A live set that was recorded is terminal
  when it comes again, and goes on again once the history is cleared.  In a frame with
  no key and no resize the loop follows the signal: on terminal it moves to the next
  pattern with an empty history, otherwise it keeps the extended history and steps.
\<close>

theorem detect_signals:
  "(hash_of live \<in> seen \<or> live = {} \<longrightarrow> detect hash_of seen live = (Terminal, seen)) \<and>
   (hash_of live \<notin> seen \<and> live \<noteq> {} \<longrightarrow>
      detect hash_of seen live = (Proceed, insert (hash_of live) seen)) \<and>
   (detect hash_of seen live = (Proceed, seen') \<longrightarrow>
      detect hash_of seen' live = (Terminal, seen') \<and>
      detect hash_of {} live = (Proceed, {hash_of live})) \<and>
   (key \<notin> {113, 81, 110, 78} \<and>
    detect hash_of (st_seen_states st) (st_live st) = (Terminal, seen') \<longrightarrow>
      (\<exists>st'. frame hash_of (st_rows st, st_cols st) key st = Inr (NextFrame st') \<and>
            next_pattern st = Inr st' \<and> st_seen_states st' = {})) \<and>
   (key \<notin> {113, 81, 110, 78} \<and>
    detect hash_of (st_seen_states st) (st_live st) = (Proceed, seen') \<longrightarrow>
      frame hash_of (st_rows st, st_cols st) key st =
        Inr (NextFrame (st\<lparr>st_seen_states := seen',
               st_live := step (st_live st) (st_rows st) (st_cols st)\<rparr>)))"
proof -
  have a: "hash_of live \<in> seen \<or> live = {} \<Longrightarrow> detect hash_of seen live = (Terminal, seen)"
    by (simp add: detect_def Let_def)
  have b: "hash_of live \<notin> seen \<and> live \<noteq> {} \<Longrightarrow>
      detect hash_of seen live = (Proceed, insert (hash_of live) seen)"
    by (simp add: detect_def Let_def)
  have c: "detect hash_of seen' live = (Terminal, seen') \<and>
      detect hash_of {} live = (Proceed, {hash_of live})"
    if "detect hash_of seen live = (Proceed, seen')"
    using that by (auto simp: detect_def Let_def split: if_splits)
  have d: "\<exists>st'. frame hash_of (st_rows st, st_cols st) key st = Inr (NextFrame st') \<and>
            next_pattern st = Inr st' \<and> st_seen_states st' = {}"
    if "key \<notin> {113, 81, 110, 78}"
      and "detect hash_of (st_seen_states st) (st_live st) = (Terminal, seen')"
  proof -
    obtain st' where st': "next_pattern st = Inr st'"
      using next_pattern_total[of st] by blast
    then show ?thesis
      using that next_pattern_fields[OF st']
      by (simp add: frame_def resize_same after_draw_no_key)
  qed
  have e: "frame hash_of (st_rows st, st_cols st) key st =
        Inr (NextFrame (st\<lparr>st_seen_states := seen',
               st_live := step (st_live st) (st_rows st) (st_cols st)\<rparr>))"
    if "key \<notin> {113, 81, 110, 78}"
      and "detect hash_of (st_seen_states st) (st_live st) = (Proceed, seen')"
    using that by (simp add: frame_def resize_same after_draw_no_key)
  show ?thesis
  proof (intro conjI impI)
    show "detect hash_of seen live = (Terminal, seen)" if "hash_of live \<in> seen \<or> live = {}"
      using that by (rule a)
    show "detect hash_of seen live = (Proceed, insert (hash_of live) seen)"
      if "hash_of live \<notin> seen \<and> live \<noteq> {}"
      using that by (rule b)
    show "detect hash_of seen' live = (Terminal, seen')"
      if "detect hash_of seen live = (Proceed, seen')"
      using c[OF that] by simp
    show "detect hash_of {} live = (Proceed, {hash_of live})"
      if "detect hash_of seen live = (Proceed, seen')"
      using c[OF that] by simp
    show "\<exists>st'. frame hash_of (st_rows st, st_cols st) key st = Inr (NextFrame st') \<and>
            next_pattern st = Inr st' \<and> st_seen_states st' = {}"
      if "key \<notin> {113, 81, 110, 78} \<and>
          detect hash_of (st_seen_states st) (st_live st) = (Terminal, seen')"
      using that d by blast
    show "frame hash_of (st_rows st, st_cols st) key st =
        Inr (NextFrame (st\<lparr>st_seen_states := seen',
               st_live := step (st_live st) (st_rows st) (st_cols st)\<rparr>))"
      if "key \<notin> {113, 81, 110, 78} \<and>
          detect hash_of (st_seen_states st) (st_live st) = (Proceed, seen')"
      using that e by blast
  qed
qed

theorem detect_signals_witness:
  "detect (\<lambda>s. s) {} {(1, 1)} = (Proceed, {{(1, 1)}}) \<and>
   detect (\<lambda>s. s) {{(1, 1)}} {(1, 1)} = (Terminal, {{(1, 1)}}) \<and>
   detect (\<lambda>s. s) {} {(1, 1)} = (Proceed, {{(1, 1)}}) \<and>
   detect (\<lambda>s. s) {{(1, 1)}} {} = (Terminal, {{(1, 1)}})"
proof -
  let ?st = "\<lparr>st_pattern_index = 0, st_rows = 3, st_cols = 3, st_live = {(1, 1)},
      st_seen_states = {} :: cell set set\<rparr>"
  note t = detect_signals[where hash_of = "\<lambda>s. s" and key = "-1" and st = ?st]
  have 1: "detect (\<lambda>s. s) {} {(1, 1)} = (Proceed, {{(1, 1)}})"
    using t[where live = "{(1, 1)}" and seen = "{}" and seen' = "{{(1, 1)}}",
        THEN conjunct2, THEN conjunct1]
    by simp
  have 2: "detect (\<lambda>s. s) {{(1, 1)}} {(1, 1)} = (Terminal, {{(1, 1)}}) \<and>
           detect (\<lambda>s. s) {} {(1, 1)} = (Proceed, {{(1, 1)}})"
    using t[where live = "{(1, 1)}" and seen = "{}" and seen' = "{{(1, 1)}}",
        THEN conjunct2, THEN conjunct2, THEN conjunct1] 1
    by simp
  have 3: "detect (\<lambda>s. s) {{(1, 1)}} {} = (Terminal, {{(1, 1)}})"
    using t[where live = "{}" and seen = "{{(1, 1)}}" and seen' = "{}", THEN conjunct1]
    by simp
  show ?thesis using 1 2 3 by simp
qed

lemma after_draw_next_key:
  assumes "key = 110 \<or> key = 78"
    and "next_pattern st = Inr st2"
    and "st_live st2 \<noteq> {}"
  shows "after_draw hash_of key st =
     Inr (NextFrame (st2\<lparr>st_seen_states := {hash_of (st_live st2)},
            st_live := step (st_live st2) (st_rows st2) (st_cols st2)\<rparr>))"
proof -
  have "st_seen_states st2 = {}"
    using next_pattern_fields[OF assms(2)] by simp
  then have "detect hash_of (st_seen_states st2) (st_live st2) = (Proceed, {hash_of (st_live st2)})"
    using assms(3) by (simp add: detect_def Let_def)
  then show ?thesis
    using assms(1,2) by (auto simp: after_draw_def)
qed


lemma acorn_seed:
  "seed_of 2 24 80 =
     Inr {(10, 37), (11, 39), (12, 36), (12, 37), (12, 40), (12, 41), (12, 42)}"
  by code_simp

lemma acorn_step:
  "step {(10, 37), (11, 39), (12, 36), (12, 37), (12, 40), (12, 41), (12, 42)} 24 80 =
     {(11, 36), (11, 37), (11, 38), (11, 40), (11, 41), (12, 40), (12, 41), (13, 41)}"
  by code_simp

text \<open>
  C2.  A frame on a 24x80 terminal in which the pulsar (index 1) is current and the
  key \<open>n\<close> is read, whatever the live set and the history: the index moves to the
  acorn and the acorn is seeded, but the frame goes on to the cycle check, records
  the fingerprint of the seed and steps it.  The next frame draws the stepped acorn,
  not the seed.
\<close>

theorem next_key_steps_fresh_seed:
  "seed_of 2 24 80 =
     Inr {(10, 37), (11, 39), (12, 36), (12, 37), (12, 40), (12, 41), (12, 42)} \<and>
   frame hash_of (24, 80) 110
     \<lparr>st_pattern_index = 1, st_rows = 24, st_cols = 80, st_live = live0,
       st_seen_states = seen0\<rparr> =
     Inr (NextFrame
       \<lparr>st_pattern_index = 2, st_rows = 24, st_cols = 80,
         st_live = {(11, 36), (11, 37), (11, 38), (11, 40), (11, 41), (12, 40), (12, 41), (13, 41)},
         st_seen_states =
           {hash_of {(10, 37), (11, 39), (12, 36), (12, 37), (12, 40), (12, 41), (12, 42)}}\<rparr>) \<and>
   drawn (24, 80)
     \<lparr>st_pattern_index = 2, st_rows = 24, st_cols = 80,
       st_live = {(11, 36), (11, 37), (11, 38), (11, 40), (11, 41), (12, 40), (12, 41), (13, 41)},
       st_seen_states =
         {hash_of {(10, 37), (11, 39), (12, 36), (12, 37), (12, 40), (12, 41), (12, 42)}}\<rparr> =
     Inr {(11, 36), (11, 37), (11, 38), (11, 40), (11, 41), (12, 40), (12, 41), (13, 41)}"
proof -
  let ?seed = "{(10, 37), (11, 39), (12, 36), (12, 37), (12, 40), (12, 41), (12, 42 :: int)} :: cell set"
  let ?st0 = "\<lparr>st_pattern_index = 1, st_rows = 24, st_cols = 80, st_live = live0,
       st_seen_states = seen0\<rparr>"
  let ?st2 = "\<lparr>st_pattern_index = 2, st_rows = 24, st_cols = 80, st_live = ?seed,
       st_seen_states = {}\<rparr> :: 'a state"
  have "(st_pattern_index ?st0 + 1) mod length patterns = 2"
    by (simp add: length_patterns)
  then have np: "next_pattern ?st0 = Inr ?st2"
    unfolding next_pattern_def Let_def by (simp add: acorn_seed)
  have ne: "st_live ?st2 \<noteq> {}" by simp
  have "frame hash_of (24, 80) 110 ?st0 = after_draw hash_of 110 ?st0"
    by (simp add: frame_def resize_def)
  then have f: "frame hash_of (24, 80) 110 ?st0 =
      Inr (NextFrame (?st2\<lparr>st_seen_states := {hash_of (st_live ?st2)},
            st_live := step (st_live ?st2) (st_rows ?st2) (st_cols ?st2)\<rparr>))"
    using after_draw_next_key[OF _ np ne, of 110 hash_of] by simp
  show ?thesis
    using f by (simp add: acorn_seed acorn_step drawn_def resize_def)
qed

end
